theory Spec2Isabelle
  imports Main
begin

unbundle bit_operations_syntax

section \<open>The LZ77 golden model of \<open>scripts/lz77_gen_vectors.py\<close>\<close>

text \<open>
  Python integers are unbounded, so token fields, window sizes, length limits and bit
  widths are \<open>int\<close>. Loop counters that the source only ever starts at \<open>0\<close> and
  increments (\<open>i\<close>, \<open>j\<close>, \<open>match_len\<close>, \<open>k\<close>) are \<open>nat\<close>. Every \<open>raise\<close> and every
  failing list read of the source is a value of \<open>error\<close>.
\<close>

type_synonym token = "int \<times> int \<times> int"

datatype error =
    DistanceZero                \<comment> \<open>\<open>ValueError("Invalid token: distance=0 with length>0")\<close>\<close>
  | BackRefTooFar int int       \<comment> \<open>\<open>ValueError("Invalid back-reference: dist=.., hist_len=..")\<close>\<close>
  | IndexError                  \<comment> \<open>list index out of range\<close>
  | ByteOutOfRange              \<comment> \<open>\<open>bytes(..)\<close> of a value outside \<open>range(0, 256)\<close>\<close>
  | DistTooWide int             \<comment> \<open>\<open>ValueError("dist too wide: ..")\<close>\<close>
  | LenTooWide int              \<comment> \<open>\<open>ValueError("len too wide: ..")\<close>\<close>
  | LitInvalid int              \<comment> \<open>\<open>ValueError("lit invalid: ..")\<close>\<close>
  | NegativeShiftCount          \<comment> \<open>\<open>1 << w\<close> with \<open>w < 0\<close>\<close>

text \<open>The two errors the decoder raises itself: the specification's InvalidBackReference.\<close>

fun is_invalid_back_reference :: "error \<Rightarrow> bool" where
  "is_invalid_back_reference DistanceZero = True"
| "is_invalid_back_reference (BackRefTooFar d h) = True"
| "is_invalid_back_reference e = False"

text \<open>The three errors \<open>pack_token_word\<close> raises itself: the specification's FieldOverflow.\<close>

fun is_field_overflow :: "error \<Rightarrow> bool" where
  "is_field_overflow (DistTooWide d) = True"
| "is_field_overflow (LenTooWide l) = True"
| "is_field_overflow (LitInvalid b) = True"
| "is_field_overflow e = False"

subsection \<open>Python list primitives\<close>

text \<open>\<open>xs[i]\<close>: a negative index counts from the end; out of range raises.\<close>

definition py_index :: "'a list \<Rightarrow> int \<Rightarrow> error + 'a" where
  "py_index xs i =
     (let n = int (length xs); j = (if i < 0 then i + n else i)
      in if 0 \<le> j \<and> j < n then Inr (xs ! nat j) else Inl IndexError)"

text \<open>\<open>xs[s:]\<close>: a negative start counts from the end; the start is clamped to the list.\<close>

definition py_slice_from :: "int \<Rightarrow> 'a list \<Rightarrow> 'a list" where
  "py_slice_from s xs =
     (let n = int (length xs)
      in if s < 0 then drop (nat (max 0 (s + n))) xs else drop (nat (min s n)) xs)"

text \<open>\<open>range(n)\<close> for an integer \<open>n\<close>: empty when \<open>n \<le> 0\<close>.\<close>

definition py_range :: "int \<Rightarrow> nat list" where
  "py_range n = [0..<nat n]"

text \<open>\<open>bytes(xs)\<close> of a list of integers: every value must lie in \<open>range(0, 256)\<close>.\<close>

definition py_bytes :: "int list \<Rightarrow> error + int list" where
  "py_bytes xs = (if list_all (\<lambda>b. 0 \<le> b \<and> b \<le> 255) xs then Inr xs else Inl ByteOutOfRange)"

subsection \<open>The encoder \<open>compress\<close>\<close>

text \<open>
  The innermost \<open>while\<close> loop (source lines 27-34). The two reads happen only after
  \<open>i + match_len < n\<close> and \<open>j + match_len < i\<close> have held, so they are in range.
\<close>

function match_length :: "int list \<Rightarrow> nat \<Rightarrow> nat \<Rightarrow> int \<Rightarrow> nat \<Rightarrow> nat" where
  "match_length data i j max_length match_len =
     (if i + match_len < length data \<and> j + match_len < i \<and> int match_len < max_length
         \<and> data ! (j + match_len) = data ! (i + match_len)
      then match_length data i j max_length (Suc match_len)
      else match_len)"
  by pat_completeness auto
termination
  by (relation "measure (\<lambda>(data, i, j, max_length, match_len). length data - (i + match_len))") auto

text \<open>
  The \<open>for j in range(start, i)\<close> loop (source lines 22-39), over the list of candidate
  starts, carrying \<open>(best_len, best_dist)\<close>.
\<close>

fun find_best :: "int list \<Rightarrow> nat \<Rightarrow> int \<Rightarrow> int \<Rightarrow> nat list \<Rightarrow> nat \<times> int \<Rightarrow> nat \<times> int" where
  "find_best data i window_size max_length [] best = best"
| "find_best data i window_size max_length (j # js) (best_len, best_dist) =
     (let dist = int i - int j in
      if dist \<le> 0 \<or> dist > window_size
      then find_best data i window_size max_length js (best_len, best_dist)
      else
        let match_len = match_length data i j max_length 0 in
        if match_len > best_len \<and> i + match_len < length data
        then find_best data i window_size max_length js (match_len, dist)
        else find_best data i window_size max_length js (best_len, best_dist))"

text \<open>One pass of the outer loop body up to line 39: the search at position \<open>i\<close>.\<close>

definition best_match :: "int list \<Rightarrow> int \<Rightarrow> int \<Rightarrow> nat \<Rightarrow> nat \<times> int" where
  "best_match data window_size max_length i =
     find_best data i window_size max_length [nat (max 0 (int i - window_size))..<i] (0, 0)"

text \<open>The outer \<open>while i < n\<close> loop (source lines 17-47), carrying \<open>tokens\<close>.\<close>

function compress_from :: "int list \<Rightarrow> int \<Rightarrow> int \<Rightarrow> nat \<Rightarrow> token list \<Rightarrow> token list" where
  "compress_from data window_size max_length i tokens =
     (if i < length data then
        (case best_match data window_size max_length i of
           (best_len, best_dist) \<Rightarrow>
             if best_len > 0
             then compress_from data window_size max_length (i + best_len + 1)
                    (tokens @ [(best_dist, int best_len, data ! (i + best_len))])
             else compress_from data window_size max_length (i + 1)
                    (tokens @ [(0, 0, data ! i)]))
      else tokens)"
  by pat_completeness auto
termination
  by (relation "measure (\<lambda>(data, window_size, max_length, i, tokens). length data - i)") auto

definition compress :: "int list \<Rightarrow> int \<Rightarrow> int \<Rightarrow> token list" where
  "compress data window_size max_length = compress_from data window_size max_length 0 []"

subsection \<open>The decoder \<open>decompress_stream\<close>\<close>

text \<open>\<open>if len(hist) > window_size: hist = hist[-window_size:]\<close> (lines 78-79 and 85-86).\<close>

definition truncate_hist :: "int \<Rightarrow> int list \<Rightarrow> int list" where
  "truncate_hist window_size hist =
     (if int (length hist) > window_size then py_slice_from (- window_size) hist else hist)"

text \<open>
  The copy loop \<open>for k in range(length)\<close> (lines 74-79) over the state
  \<open>(out_full, hist)\<close>; \<open>start\<close> is computed once, before the loop.
\<close>

fun copy_bytes :: "int \<Rightarrow> int \<Rightarrow> nat list \<Rightarrow> int list \<times> int list \<Rightarrow> error + int list \<times> int list" where
  "copy_bytes window_size start [] (out_full, hist) = Inr (out_full, hist)"
| "copy_bytes window_size start (k # ks) (out_full, hist) =
     (case py_index hist (start + int k) of
        Inl e \<Rightarrow> Inl e
      | Inr b \<Rightarrow> copy_bytes window_size start ks (out_full @ [b], truncate_hist window_size (hist @ [b])))"

text \<open>The body of \<open>for distance, length, literal in tokens\<close> (lines 62-86).\<close>

fun decode_token :: "int \<Rightarrow> int list \<times> int list \<Rightarrow> token \<Rightarrow> error + int list \<times> int list" where
  "decode_token window_size (out_full, hist) (distance, len, literal) =
     (if len = 0 then
        Inr (out_full @ [literal], truncate_hist window_size (hist @ [literal]))
      else if distance = 0 then Inl DistanceZero
      else if distance > int (length hist) then Inl (BackRefTooFar distance (int (length hist)))
      else
        (case copy_bytes window_size (int (length hist) - distance) (py_range len) (out_full, hist) of
           Inl e \<Rightarrow> Inl e
         | Inr (out_full', hist') \<Rightarrow>
             Inr (out_full' @ [literal], truncate_hist window_size (hist' @ [literal]))))"

fun decode_tokens :: "int \<Rightarrow> int list \<times> int list \<Rightarrow> token list \<Rightarrow> error + int list \<times> int list" where
  "decode_tokens window_size st [] = Inr st"
| "decode_tokens window_size st (t # ts) =
     (case decode_token window_size st t of
        Inl e \<Rightarrow> Inl e
      | Inr st' \<Rightarrow> decode_tokens window_size st' ts)"

definition decompress_stream :: "token list \<Rightarrow> int \<Rightarrow> error + int list" where
  "decompress_stream tokens window_size =
     (case decode_tokens window_size ([], []) tokens of
        Inl e \<Rightarrow> Inl e
      | Inr (out_full, hist) \<Rightarrow> py_bytes out_full)"

subsection \<open>The token packer \<open>pack_token_word\<close>\<close>

text \<open>
  The closure of \<open>write_mem_files\<close> (lines 106-117), with the enclosing function's
  \<open>dist_width\<close>, \<open>len_width\<close> and \<open>token_w\<close> as parameters. The checks run in source
  order; each shift by a negative count raises where the source evaluates it.
\<close>

definition pack_token_word :: "int \<Rightarrow> int \<Rightarrow> int \<Rightarrow> int \<Rightarrow> int \<Rightarrow> int \<Rightarrow> error + int" where
  "pack_token_word dist_width len_width token_w dist len lit =
     (if dist_width < 0 then Inl NegativeShiftCount
      else if dist \<ge> push_bit (nat dist_width) 1 then Inl (DistTooWide dist)
      else if len_width < 0 then Inl NegativeShiftCount
      else if len \<ge> push_bit (nat len_width) 1 then Inl (LenTooWide len)
      else if lit < 0 \<or> lit > 255 then Inl (LitInvalid lit)
      else if token_w < 0 then Inl NegativeShiftCount
      else Inr ((push_bit (nat (len_width + 8)) dist OR push_bit 8 len OR lit)
                  AND (push_bit (nat token_w) 1 - 1)))"

subsection \<open>Predicates used in the statements\<close>

text \<open>The bounds the search keeps on \<open>(best_len, best_dist)\<close>, and the same on a token.\<close>

definition best_ok :: "int \<Rightarrow> int \<Rightarrow> nat \<times> int \<Rightarrow> bool" where
  "best_ok window_size max_length best =
     (case best of (best_len, best_dist) \<Rightarrow>
        (best_dist = 0 \<longleftrightarrow> best_len = 0) \<and> 0 \<le> best_dist \<and> best_dist \<le> window_size
        \<and> int best_len \<le> max_length)"

definition token_ok :: "int \<Rightarrow> int \<Rightarrow> token \<Rightarrow> bool" where
  "token_ok window_size max_length t =
     (case t of (distance, len, literal) \<Rightarrow>
        (distance = 0 \<longleftrightarrow> len = 0) \<and> 0 \<le> distance \<and> distance \<le> window_size
        \<and> 0 \<le> len \<and> len \<le> max_length)"

section \<open>Auxiliary facts\<close>

declare match_length.simps [simp del]

lemma and_mask_int: "(w::int) AND (push_bit n 1 - 1) = take_bit n w"
  by (simp add: take_bit_eq_mask mask_eq_exp_minus_1 push_bit_eq_mult)

lemma or_push_bit_low:
  fixes x :: int
  assumes "0 \<le> x" "x < 2 ^ n"
  shows "push_bit n d OR x = d * 2 ^ n + x"
proof -
  have "take_bit n x = x" using assms by (simp add: take_bit_int_eq_self)
  then have "push_bit n d OR x = concat_bit n x d"
    by (simp add: concat_bit_def or.commute)
  also have "\<dots> = take_bit n x + push_bit n d" by (rule concat_bit_eq)
  finally show ?thesis using \<open>take_bit n x = x\<close> by (simp add: push_bit_eq_mult)
qed

section \<open>The token packer\<close>

text \<open>
  Claim C8 (pack bit layout). With non-negative widths and \<open>token_w\<close> derived as
  \<open>dist_width + len_width + 8\<close>, every \<open>dist < 2 ^ dist_width\<close>, \<open>len < 2 ^ len_width\<close>
  and \<open>lit\<close> in \<open>[0, 255]\<close> is packed without error into
  \<open>(dist << (len_width + 8)) | (len << 8) | lit\<close> reduced to its low \<open>token_w\<close> bits;
  and \<open>(1, 2, 0x41)\<close> with both widths \<open>4\<close> packs to \<open>0x1241\<close>.
\<close>

theorem pack_bit_layout:
  assumes "0 \<le> dist_width" "0 \<le> len_width"
    and "dist < 2 ^ nat dist_width" "len < 2 ^ nat len_width" "0 \<le> lit" "lit \<le> 255"
  shows "pack_token_word dist_width len_width (dist_width + len_width + 8) dist len lit =
           Inr (take_bit (nat (dist_width + len_width + 8))
                  (push_bit (nat (len_width + 8)) dist OR push_bit 8 len OR lit))
         \<and> pack_token_word 4 4 (4 + 4 + 8) 1 2 0x41 = Inr 0x1241"
proof -
  have scenario: "pack_token_word 4 4 (4 + 4 + 8) 1 2 0x41 = Inr 0x1241"
    by code_simp
  have layout: "pack_token_word dist_width len_width (dist_width + len_width + 8) dist len lit =
           Inr (take_bit (nat (dist_width + len_width + 8))
                  (push_bit (nat (len_width + 8)) dist OR push_bit 8 len OR lit))"
    using assms unfolding pack_token_word_def and_mask_int
    by (simp add: push_bit_eq_mult)
  show ?thesis using scenario layout by simp
qed

theorem pack_bit_layout_witness:
  "(0::int) \<le> 4 \<and> (3::int) < 2 ^ nat 4 \<and> (5::int) < 2 ^ nat 4 \<and> (0::int) \<le> 66 \<and> (66::int) \<le> 255
   \<and> pack_token_word 4 4 (4 + 4 + 8) 3 5 66 = Inr 0x3542"
proof -
  have "pack_token_word 4 4 (4 + 4 + 8) 3 5 66 =
          Inr (take_bit (nat (4 + 4 + 8)) (push_bit (nat (4 + 8)) 3 OR push_bit 8 5 OR 66))"
    using pack_bit_layout [of 4 4 3 5 66] by simp
  moreover have "take_bit (nat (4 + 4 + 8)) (push_bit (nat (4 + 8)) 3 OR push_bit 8 5 OR (66::int)) = 0x3542"
    by code_simp
  ultimately show ?thesis by simp
qed

text \<open>
  For non-negative fields the three fields do not overlap and the mask removes nothing:
  the word is \<open>dist * 2 ^ (len_width + 8) + len * 2 ^ 8 + lit\<close>.
\<close>

lemma pack_token_word_value:
  assumes "0 \<le> dist_width" "0 \<le> len_width"
    and "0 \<le> dist" "dist < 2 ^ nat dist_width" "0 \<le> len" "len < 2 ^ nat len_width"
    and "0 \<le> lit" "lit \<le> 255"
  shows "pack_token_word dist_width len_width (dist_width + len_width + 8) dist len lit =
           Inr (dist * 2 ^ nat (len_width + 8) + len * 2 ^ 8 + lit)"
proof -
  let ?lo = "len * 2 ^ 8 + lit"
  have low: "push_bit 8 len OR lit = ?lo"
    using or_push_bit_low [of lit 8 len] assms(7,8) by simp
  have lo0: "0 \<le> ?lo" using assms(5,7) by simp
  have "len + 1 \<le> 2 ^ nat len_width" using assms(6) by simp
  then have "(len + 1) * 2 ^ 8 \<le> 2 ^ nat len_width * (2 ^ 8 :: int)"
    by (intro mult_right_mono) simp_all
  then have lo1: "?lo < 2 ^ nat (len_width + 8)"
    using assms(2,8) by (simp add: nat_add_distrib power_add algebra_simps)
  have word: "push_bit (nat (len_width + 8)) dist OR push_bit 8 len OR lit
                = dist * 2 ^ nat (len_width + 8) + ?lo"
    using or_push_bit_low [OF lo0 lo1, of dist] low by (simp add: or.assoc)
  have w0: "0 \<le> dist * 2 ^ nat (len_width + 8) + ?lo"
    using assms(3) lo0 by simp
  have "dist + 1 \<le> 2 ^ nat dist_width" using assms(4) by simp
  then have "(dist + 1) * 2 ^ nat (len_width + 8) \<le> 2 ^ nat dist_width * (2 ^ nat (len_width + 8) :: int)"
    by (intro mult_right_mono) simp_all
  then have w1: "dist * 2 ^ nat (len_width + 8) + ?lo < 2 ^ nat (dist_width + len_width + 8)"
    using lo1 assms(1,2) by (simp add: nat_add_distrib power_add algebra_simps)
  have "take_bit (nat (dist_width + len_width + 8)) (dist * 2 ^ nat (len_width + 8) + ?lo)
          = dist * 2 ^ nat (len_width + 8) + ?lo"
    using w0 w1 by (simp add: take_bit_int_eq_self)
  then show ?thesis
    using assms(1,2,4,6,7,8) word
    unfolding pack_token_word_def and_mask_int
    by (simp add: push_bit_eq_mult add.assoc)
qed

text \<open>
  Claim C9 (overflow rejection). With non-negative widths, \<open>pack_token_word\<close> raises one
  of its three field errors exactly when \<open>dist \<ge> 2 ^ dist_width\<close>, or
  \<open>len \<ge> 2 ^ len_width\<close>, or \<open>lit\<close> lies outside \<open>[0, 255]\<close>; and it returns a word
  exactly when all three fields are within these bounds.
\<close>

theorem pack_overflow_iff:
  assumes "0 \<le> dist_width" "0 \<le> len_width" "0 \<le> token_w"
  shows "((\<exists>e. pack_token_word dist_width len_width token_w dist len lit = Inl e \<and> is_field_overflow e)
           \<longleftrightarrow> (dist \<ge> 2 ^ nat dist_width \<or> len \<ge> 2 ^ nat len_width \<or> lit < 0 \<or> lit > 255))
       \<and> ((\<exists>w. pack_token_word dist_width len_width token_w dist len lit = Inr w)
           \<longleftrightarrow> (dist < 2 ^ nat dist_width \<and> len < 2 ^ nat len_width \<and> 0 \<le> lit \<and> lit \<le> 255))"
  using assms unfolding pack_token_word_def
  by (auto simp: push_bit_eq_mult)

theorem pack_overflow_iff_witness:
  "(0::int) \<le> 4 \<and> (0::int) \<le> 16
   \<and> (\<exists>e. pack_token_word 4 4 16 16 2 65 = Inl e \<and> is_field_overflow e)
   \<and> (\<exists>w. pack_token_word 4 4 16 15 2 65 = Inr w)"
  using pack_overflow_iff [of 4 4 16 16 2 65] pack_overflow_iff [of 4 4 16 15 2 65]
  by simp

section \<open>The encoder\<close>

lemma match_length_ge: "match_len \<le> match_length data i j max_length match_len"
proof (induction data i j max_length match_len rule: match_length.induct)
  case (1 data i j max_length match_len)
  show ?case
  proof (cases "i + match_len < length data \<and> j + match_len < i \<and> int match_len < max_length
         \<and> data ! (j + match_len) = data ! (i + match_len)")
    case True
    then have "match_length data i j max_length match_len = match_length data i j max_length (Suc match_len)"
      by (subst match_length.simps) simp
    with 1 True show ?thesis by simp
  next
    case False
    then have "match_length data i j max_length match_len = match_len"
      by (subst match_length.simps) auto
    then show ?thesis by simp
  qed
qed

lemma match_length_le_max:
  "int match_len \<le> max_length \<Longrightarrow> int (match_length data i j max_length match_len) \<le> max_length"
proof (induction data i j max_length match_len rule: match_length.induct)
  case (1 data i j max_length match_len)
  show ?case
  proof (cases "i + match_len < length data \<and> j + match_len < i \<and> int match_len < max_length
         \<and> data ! (j + match_len) = data ! (i + match_len)")
    case True
    then have "match_length data i j max_length match_len = match_length data i j max_length (Suc match_len)"
      by (subst match_length.simps) simp
    with 1 True show ?thesis by simp
  next
    case False
    then have "match_length data i j max_length match_len = match_len"
      by (subst match_length.simps) auto
    with 1 show ?thesis by simp
  qed
qed

lemma find_best_ok:
  "0 \<le> max_length \<Longrightarrow> best_ok window_size max_length best \<Longrightarrow>
   best_ok window_size max_length (find_best data i window_size max_length js best)"
proof (induction js arbitrary: best)
  case Nil
  then show ?case by simp
next
  case (Cons j js)
  obtain bl bd where best: "best = (bl, bd)" by (cases best)
  have step: "best_ok window_size max_length (match_length data i j max_length 0, int i - int j)"
    if "0 < int i - int j" "int i - int j \<le> window_size" "bl < match_length data i j max_length 0"
    using that match_length_le_max [of 0 max_length data i j] Cons.prems(1)
    by (simp add: best_ok_def)
  show ?case
    using Cons.IH [OF Cons.prems(1)] Cons.prems(2) step
    by (auto simp: best Let_def)
qed

lemma best_match_ok:
  "0 \<le> window_size \<Longrightarrow> 0 \<le> max_length \<Longrightarrow> best_ok window_size max_length (best_match data window_size max_length i)"
  unfolding best_match_def by (rule find_best_ok) (simp_all add: best_ok_def)

lemma compress_from_ok:
  "0 \<le> window_size \<Longrightarrow> 0 \<le> max_length \<Longrightarrow> list_all (token_ok window_size max_length) tokens \<Longrightarrow>
   list_all (token_ok window_size max_length) (compress_from data window_size max_length i tokens)"
proof (induction data window_size max_length i tokens rule: compress_from.induct)
  case (1 data window_size max_length i tokens)
  show ?case
  proof (cases "i < length data")
    case False
    with 1 show ?thesis by simp
  next
    case True
    obtain bl bd where bm: "best_match data window_size max_length i = (bl, bd)"
      by (cases "best_match data window_size max_length i")
    have ok: "best_ok window_size max_length (bl, bd)"
      using best_match_ok [OF "1.prems"(1,2), of data i] bm by simp
    show ?thesis
    proof (cases "bl > 0")
      case True
      have "token_ok window_size max_length (bd, int bl, data ! (i + bl))"
        using ok True by (simp add: token_ok_def best_ok_def)
      with "1.prems"(3)
      have "list_all (token_ok window_size max_length) (tokens @ [(bd, int bl, data ! (i + bl))])"
        by simp
      from "1.IH"(1) [OF \<open>i < length data\<close> bm [symmetric] True "1.prems"(1,2) this]
      show ?thesis using \<open>i < length data\<close> bm True by simp
    next
      case False
      have "token_ok window_size max_length (0, 0, data ! i)"
        using "1.prems"(1,2) by (simp add: token_ok_def)
      with "1.prems"(3)
      have "list_all (token_ok window_size max_length) (tokens @ [(0, 0, data ! i)])"
        by simp
      from "1.IH"(2) [OF \<open>i < length data\<close> bm [symmetric] False "1.prems"(1,2) this]
      show ?thesis using \<open>i < length data\<close> bm False by simp
    qed
  qed
qed

text \<open>
  Claim C7 (encoder token validity). For \<open>window_size \<ge> 1\<close> and \<open>max_length \<ge> 1\<close>,
  every token \<open>(distance, length, literal)\<close> of \<open>compress data window_size max_length\<close>
  has \<open>distance = 0\<close> exactly when \<open>length = 0\<close>, \<open>distance \<le> window_size\<close> and
  \<open>length \<le> max_length\<close>; and the empty input gives the empty token sequence.
\<close>

theorem compress_tokens_valid:
  assumes "1 \<le> window_size" "1 \<le> max_length"
  shows "(\<forall>t \<in> set (compress data window_size max_length).
            case t of (distance, len, literal) \<Rightarrow>
              (distance = 0 \<longleftrightarrow> len = 0) \<and> distance \<le> window_size \<and> len \<le> max_length)
         \<and> compress [] window_size max_length = []"
proof -
  have "list_all (token_ok window_size max_length) (compress data window_size max_length)"
    unfolding compress_def using assms by (intro compress_from_ok) simp_all
  then have "\<forall>t \<in> set (compress data window_size max_length).
            case t of (distance, len, literal) \<Rightarrow>
              (distance = 0 \<longleftrightarrow> len = 0) \<and> distance \<le> window_size \<and> len \<le> max_length"
    by (auto simp: list_all_iff token_ok_def)
  moreover have "compress [] window_size max_length = []"
    by (simp add: compress_def)
  ultimately show ?thesis by simp
qed

theorem compress_tokens_valid_witness:
  "(1::int) \<le> 16 \<and> (1::int) \<le> 15
   \<and> compress [49, 48, 49, 48, 65, 66, 65, 66, 88] 16 15 = [(0, 0, 49), (0, 0, 48), (2, 2, 65), (0, 0, 66), (2, 2, 88)]
   \<and> list_all (\<lambda>(distance, len, literal). (distance = 0 \<longleftrightarrow> len = 0) \<and> distance \<le> 16 \<and> len \<le> 15)
        (compress [49, 48, 49, 48, 65, 66, 65, 66, 88] 16 15)"
proof -
  have "compress [49, 48, 49, 48, 65, 66, 65, 66, 88] 16 15 = [(0, 0, 49), (0, 0, 48), (2, 2, 65), (0, 0, 66), (2, 2, 88)]"
    by code_simp
  moreover have "list_all (\<lambda>(distance, len, literal). (distance = 0 \<longleftrightarrow> len = 0) \<and> distance \<le> 16 \<and> len \<le> 15)
        (compress [49, 48, 49, 48, 65, 66, 65, 66, 88] 16 15)"
    unfolding list_all_iff
    using compress_tokens_valid [of 16 15 "[49, 48, 49, 48, 65, 66, 65, 66, 88]"] by simp
  ultimately show ?thesis by simp
qed

lemma find_best_Cons:
  "find_best data i window_size max_length (j # js) (bl0, bd0) =
     find_best data i window_size max_length js
       (if 0 < int i - int j \<and> int i - int j \<le> window_size
           \<and> bl0 < match_length data i j max_length 0
           \<and> i + match_length data i j max_length 0 < length data
        then (match_length data i j max_length 0, int i - int j) else (bl0, bd0))"
  by (simp add: Let_def)

lemma find_best_first_longest:
  assumes "sorted js"
    and "find_best data i window_size max_length js (bl0, bd0) = (bl, bd)"
  shows "bl0 \<le> bl
     \<and> (\<forall>j \<in> set js. 0 < int i - int j \<and> int i - int j \<le> window_size
            \<and> i + match_length data i j max_length 0 < length data
          \<longrightarrow> match_length data i j max_length 0 \<le> bl)
     \<and> ((bl, bd) = (bl0, bd0)
         \<or> (bl0 < bl \<and> (\<exists>j \<in> set js. bd = int i - int j \<and> 0 < bd \<and> bd \<le> window_size
               \<and> match_length data i j max_length 0 = bl \<and> i + bl < length data
               \<and> (\<forall>j' \<in> set js. match_length data i j' max_length 0 = bl
                      \<and> i + bl < length data \<and> 0 < int i - int j' \<and> int i - int j' \<le> window_size
                    \<longrightarrow> j \<le> j'))))"
  using assms
proof (induction js arbitrary: bl0 bd0)
  case Nil
  then show ?case by simp
next
  case (Cons j js)
  let ?m = "match_length data i j max_length 0"
  have sorted: "sorted js" and le: "\<forall>j' \<in> set js. j \<le> j'"
    using Cons.prems(1) by auto
  show ?case
  proof (cases "0 < int i - int j \<and> int i - int j \<le> window_size \<and> bl0 < ?m \<and> i + ?m < length data")
    case True
    then have run: "find_best data i window_size max_length js (?m, int i - int j) = (bl, bd)"
      using Cons.prems(2) unfolding find_best_Cons by simp
    note IH = Cons.IH [OF sorted run]
    from IH have ge: "?m \<le> bl" by simp
    from IH have all: "\<forall>j' \<in> set js. 0 < int i - int j' \<and> int i - int j' \<le> window_size
            \<and> i + match_length data i j' max_length 0 < length data
          \<longrightarrow> match_length data i j' max_length 0 \<le> bl" by simp
    from IH consider
        (same) "(bl, bd) = (?m, int i - int j)"
      | (later) "?m < bl" "\<exists>j1 \<in> set js. bd = int i - int j1 \<and> 0 < bd \<and> bd \<le> window_size
               \<and> match_length data i j1 max_length 0 = bl \<and> i + bl < length data
               \<and> (\<forall>j' \<in> set js. match_length data i j' max_length 0 = bl
                      \<and> i + bl < length data \<and> 0 < int i - int j' \<and> int i - int j' \<le> window_size
                    \<longrightarrow> j1 \<le> j')"
      by blast
    then show ?thesis
    proof cases
      case same
      then show ?thesis using True ge all le by auto
    next
      case later
      then show ?thesis using True ge all by auto
    qed
  next
    case False
    then have run: "find_best data i window_size max_length js (bl0, bd0) = (bl, bd)"
      using Cons.prems(2) unfolding find_best_Cons by (auto split: if_splits)
    note IH = Cons.IH [OF sorted run]
    from IH have ge: "bl0 \<le> bl" by simp
    from IH have all: "\<forall>j' \<in> set js. 0 < int i - int j' \<and> int i - int j' \<le> window_size
            \<and> i + match_length data i j' max_length 0 < length data
          \<longrightarrow> match_length data i j' max_length 0 \<le> bl" by simp
    have mj: "0 < int i - int j \<and> int i - int j \<le> window_size \<and> i + ?m < length data \<longrightarrow> ?m \<le> bl"
      using False ge by auto
    from IH consider
        (same) "(bl, bd) = (bl0, bd0)"
      | (later) "bl0 < bl" "\<exists>j1 \<in> set js. bd = int i - int j1 \<and> 0 < bd \<and> bd \<le> window_size
               \<and> match_length data i j1 max_length 0 = bl \<and> i + bl < length data
               \<and> (\<forall>j' \<in> set js. match_length data i j' max_length 0 = bl
                      \<and> i + bl < length data \<and> 0 < int i - int j' \<and> int i - int j' \<le> window_size
                    \<longrightarrow> j1 \<le> j')"
      by blast
    then show ?thesis
    proof cases
      case same
      then show ?thesis using all mj by auto
    next
      case later
      have "?m \<noteq> bl \<or> \<not> (i + bl < length data \<and> 0 < int i - int j \<and> int i - int j \<le> window_size)"
        using False later(1) by auto
      then show ?thesis using later ge all mj by auto
    qed
  qed
qed

text \<open>The token emitted at position \<open>i\<close> is the result of the search there.\<close>

lemma compress_from_emits_match:
  assumes "i < length data" "best_match data window_size max_length i = (best_len, best_dist)"
    and "0 < best_len"
  shows "compress_from data window_size max_length i tokens =
           compress_from data window_size max_length (i + best_len + 1)
             (tokens @ [(best_dist, int best_len, data ! (i + best_len))])"
  using assms by (subst compress_from.simps) simp




section \<open>The decoder's history and output\<close>

text \<open>
  A run over a token list passes through the state after each prefix, and a copy loop
  over \<open>range(length)\<close> passes through the state after each shorter range: the two
  lemmas below say so. The states a run can be observed in are therefore the results of
  \<open>decode_tokens\<close> on a prefix, and of \<open>copy_bytes\<close> from such a state.
\<close>

lemma truncate_hist_length:
  "1 \<le> window_size \<Longrightarrow> int (length (truncate_hist window_size hist)) \<le> window_size"
  by (auto simp: truncate_hist_def py_slice_from_def)

lemma copy_bytes_append:
  "copy_bytes window_size start (ks @ ks') st =
     (case copy_bytes window_size start ks st of
        Inl e \<Rightarrow> Inl e
      | Inr st' \<Rightarrow> copy_bytes window_size start ks' st')"
proof (induction ks arbitrary: st)
  case Nil
  then show ?case by (cases st) simp
next
  case (Cons k ks)
  then show ?case by (cases st) (simp split: sum.splits)
qed

lemma decode_tokens_append:
  "decode_tokens window_size st (ts @ ts') =
     (case decode_tokens window_size st ts of
        Inl e \<Rightarrow> Inl e
      | Inr st' \<Rightarrow> decode_tokens window_size st' ts')"
  by (induction ts arbitrary: st) (simp_all split: sum.splits)

lemma copy_bytes_out:
  "copy_bytes window_size start ks (out_full, hist) = Inr (out_full', hist') \<Longrightarrow>
   \<exists>bs. out_full' = out_full @ bs \<and> length bs = length ks"
proof (induction ks arbitrary: out_full hist)
  case Nil
  then show ?case by simp
next
  case (Cons k ks)
  from Cons.prems obtain b where
    run: "copy_bytes window_size start ks (out_full @ [b], truncate_hist window_size (hist @ [b])) = Inr (out_full', hist')"
    by (auto split: sum.splits)
  from Cons.IH [OF run] show ?case by auto
qed


lemma decode_token_inv:
  assumes "1 \<le> window_size"
    and "decode_token window_size (out_full, hist) (distance, len, literal) = Inr (out_full', hist')"
  shows "int (length hist') \<le> window_size
         \<and> (\<exists>bs. out_full' = out_full @ bs @ [literal] \<and> length bs = nat len)"
proof (cases "len = 0")
  case True
  with assms show ?thesis by (auto simp: truncate_hist_length)
next
  case False
  with assms(2) obtain o1 h1 where
    run: "copy_bytes window_size (int (length hist) - distance) (py_range len) (out_full, hist) = Inr (o1, h1)"
    and res: "out_full' = o1 @ [literal]" "hist' = truncate_hist window_size (h1 @ [literal])"
    by (auto split: if_splits sum.splits)
  from copy_bytes_out [OF run] obtain bs where "o1 = out_full @ bs" "length bs = nat len"
    by (auto simp: py_range_def)
  with res assms(1) show ?thesis by (simp add: truncate_hist_length)
qed





lemma decode_tokens_rejects:
  assumes "1 \<le> window_size" "len \<noteq> 0" "window_size < distance"
  shows "(distance, len, literal) \<in> set ts \<Longrightarrow> int (length hist) \<le> window_size \<Longrightarrow>
    \<exists>e. decode_tokens window_size (out_full, hist) ts = Inl e"
proof (induction ts arbitrary: out_full hist)
  case Nil
  then show ?case by simp
next
  case (Cons t ts)
  obtain d l lit where t: "t = (d, l, lit)" by (cases t)
  show ?case
  proof (cases "decode_token window_size (out_full, hist) t")
    case (Inl e)
    then show ?thesis by simp
  next
    case (Inr st')
    obtain o1 h1 where st': "st' = (o1, h1)" by (cases st')
    have "t \<noteq> (distance, len, literal)"
      using Inr assms Cons.prems(2) by (auto split: if_splits)
    then have mem: "(distance, len, literal) \<in> set ts" using Cons.prems(1) by auto
    have "int (length h1) \<le> window_size"
      using decode_token_inv [OF assms(1), of out_full hist d l lit o1 h1] Inr t st' by simp
    from Cons.IH [OF mem this, of o1] Inr st' show ?thesis by simp
  qed
qed

text \<open>
  Claim C3 (decode-time validation), as the code has it. For \<open>window_size \<ge> 1\<close>, a
  token sequence that contains a token with \<open>length \<noteq> 0\<close> and
  \<open>distance > window_size\<close> is never decoded: \<open>decompress_stream\<close> fails, and that token
  itself, reached with any history within the bound, raises the back-reference error.
  The decoder has no \<open>max_length\<close> parameter and never compares \<open>length\<close> with
  anything; it does not look at \<open>distance\<close> when \<open>length = 0\<close>.
\<close>

theorem far_back_reference_rejected:
  assumes "1 \<le> window_size" "(distance, len, literal) \<in> set tokens" "len \<noteq> 0" "window_size < distance"
  shows "(\<exists>e. decompress_stream tokens window_size = Inl e)
     \<and> (\<forall>out_full hist. int (length hist) \<le> window_size \<longrightarrow>
          decode_token window_size (out_full, hist) (distance, len, literal)
            = Inl (BackRefTooFar distance (int (length hist))))"
proof -
  from decode_tokens_rejects [OF assms(1,3,4,2), of "[]" "[]"]
    assms(1)
  obtain e where "decode_tokens window_size ([], []) tokens = Inl e" by auto
  then have "decompress_stream tokens window_size = Inl e"
    by (simp add: decompress_stream_def)
  moreover have "decode_token window_size (out_full, hist) (distance, len, literal)
            = Inl (BackRefTooFar distance (int (length hist)))"
    if "int (length hist) \<le> window_size" for out_full hist
    using that assms by auto
  ultimately show ?thesis by blast
qed

theorem far_back_reference_rejected_witness:
  "(1::int) \<le> 16 \<and> (17, 2, 66) \<in> set [(0, 0, 65), (17, 2, 66 :: int)] \<and> (2::int) \<noteq> 0 \<and> (16::int) < 17
   \<and> (\<exists>e. decompress_stream [(0, 0, 65), (17, 2, 66)] 16 = Inl e)"
  using far_back_reference_rejected [of 16 17 2 66 "[(0, 0, 65), (17, 2, 66)]"]
  by simp

text \<open>
  Claim C3 as stated fails: with \<open>window_size = 16\<close> the token \<open>(20, 0, 65)\<close>, whose
  distance exceeds the window, decodes to the byte \<open>65\<close>; and \<open>(1, 16, 66)\<close>, whose
  length exceeds the encoder's default \<open>max_length = 15\<close> (and any smaller limit),
  decodes to sixteen copied bytes and its literal.
\<close>

theorem unvalidated_fields_decode_silently:
  "decompress_stream [(20, 0, 65)] 16 = Inr [65]
   \<and> decompress_stream [(0, 0, 65), (1, 16, 66)] 16
       = Inr [65, 65, 65, 65, 65, 65, 65, 65, 65, 65, 65, 65, 65, 65, 65, 65, 65, 66]"
  by code_simp

section \<open>Round trip while the input fits in the window\<close>

text \<open>
  While no more bytes have been produced than the window holds, the history is never
  truncated and equals the output. A match token found by the encoder then copies
  exactly the bytes the input has at that position, and the round trip returns the
  input.
\<close>

lemma match_length_agrees:
  "j + match_len \<le> i \<Longrightarrow> (\<forall>k < match_len. data ! (j + k) = data ! (i + k)) \<Longrightarrow>
   j + match_length data i j max_length match_len \<le> i
   \<and> (\<forall>k < match_length data i j max_length match_len. data ! (j + k) = data ! (i + k))"
proof (induction data i j max_length match_len rule: match_length.induct)
  case (1 data i j max_length match_len)
  show ?case
  proof (cases "i + match_len < length data \<and> j + match_len < i \<and> int match_len < max_length
         \<and> data ! (j + match_len) = data ! (i + match_len)")
    case True
    then have eq: "match_length data i j max_length match_len = match_length data i j max_length (Suc match_len)"
      by (subst match_length.simps) simp
    have "\<forall>k < Suc match_len. data ! (j + k) = data ! (i + k)"
      using "1.prems"(2) True by (auto simp: less_Suc_eq)
    with "1.IH" True show ?thesis unfolding eq by simp
  next
    case False
    then have "match_length data i j max_length match_len = match_len"
      by (subst match_length.simps) auto
    with 1 show ?thesis by simp
  qed
qed

lemma best_match_source:
  assumes "best_match data window_size max_length i = (best_len, best_dist)" "0 < best_len"
  shows "\<exists>j0 < i. best_dist = int i - int j0 \<and> best_dist \<le> window_size
           \<and> match_length data i j0 max_length 0 = best_len \<and> i + best_len < length data"
proof -
  let ?start = "nat (max 0 (int i - window_size))"
  have run: "find_best data i window_size max_length [?start..<i] (0, 0) = (best_len, best_dist)"
    using assms(1) by (simp add: best_match_def)
  have "sorted [?start..<i]" by simp
  from find_best_first_longest [OF this run] assms(2)
  obtain j0 where "j0 \<in> set [?start..<i]" "best_dist = int i - int j0"
      "best_dist \<le> window_size" "match_length data i j0 max_length 0 = best_len"
      "i + best_len < length data"
    by auto
  then show ?thesis by auto
qed

lemma truncate_hist_short:
  "int (length hist) \<le> window_size \<Longrightarrow> truncate_hist window_size hist = hist"
  by (simp add: truncate_hist_def)

lemma copy_bytes_within_window:
  assumes "int (length data) \<le> window_size" "j + bl \<le> i" "i + bl \<le> length data"
    and "\<forall>k < bl. data ! (j + k) = data ! (i + k)"
  shows "k \<le> bl \<Longrightarrow>
    copy_bytes window_size (int j) [k..<bl] (take (i + k) data, take (i + k) data)
      = Inr (take (i + bl) data, take (i + bl) data)"
proof (induction "bl - k" arbitrary: k)
  case 0
  then show ?case by simp
next
  case (Suc n)
  then have k: "k < bl" by simp
  have rd: "py_index (take (i + k) data) (int j + int k) = Inr (data ! (i + k))"
    using k assms(2,3,4) by (auto simp: py_index_def Let_def nat_add_distrib)
  have app: "take (i + k) data @ [data ! (i + k)] = take (i + Suc k) data"
    using k assms(3) by (simp add: take_Suc_conv_app_nth)
  have tr: "truncate_hist window_size (take (i + Suc k) data) = take (i + Suc k) data"
    using assms(1) by (intro truncate_hist_short) simp
  have IH: "copy_bytes window_size (int j) [Suc k..<bl] (take (i + Suc k) data, take (i + Suc k) data)
      = Inr (take (i + bl) data, take (i + bl) data)"
    using Suc.hyps(1) [of "Suc k"] Suc.hyps(2) k by simp
  show ?case
    using k rd app tr IH by (simp add: upt_conv_Cons)
qed

lemma decode_token_literal_within_window:
  assumes "int (length data) \<le> window_size" "i < length data"
  shows "decode_token window_size (take i data, take i data) (0, 0, data ! i)
           = Inr (take (Suc i) data, take (Suc i) data)"
proof -
  have app: "take i data @ [data ! i] = take (Suc i) data"
    using assms(2) by (simp add: take_Suc_conv_app_nth)
  have "truncate_hist window_size (take (Suc i) data) = take (Suc i) data"
    using assms(1) by (intro truncate_hist_short) simp
  with app show ?thesis by simp
qed

lemma decode_token_match_within_window:
  assumes "int (length data) \<le> window_size"
    and "best_match data window_size max_length i = (bl, bd)" "0 < bl"
  shows "decode_token window_size (take i data, take i data) (bd, int bl, data ! (i + bl))
           = Inr (take (i + bl + 1) data, take (i + bl + 1) data)"
proof -
  from best_match_source [OF assms(2,3)] obtain j0 where
    j0: "j0 < i" "bd = int i - int j0" "match_length data i j0 max_length 0 = bl" "i + bl < length data"
    by auto
  from match_length_agrees [of j0 0 i data max_length] j0
  have src: "j0 + bl \<le> i" and agree: "\<forall>k < bl. data ! (j0 + k) = data ! (i + k)"
    by auto
  have len: "length (take i data) = i" using j0(4) by simp
  have cp: "copy_bytes window_size (int j0) [0..<bl] (take i data, take i data)
      = Inr (take (i + bl) data, take (i + bl) data)"
    using copy_bytes_within_window [OF assms(1) src _ agree, of 0] j0(4) by simp
  have app: "take (i + bl) data @ [data ! (i + bl)] = take (i + bl + 1) data"
    using j0(4) by (simp add: take_Suc_conv_app_nth)
  have tr: "truncate_hist window_size (take (i + bl + 1) data) = take (i + bl + 1) data"
    using assms(1) by (intro truncate_hist_short) simp
  have start: "int (length (take i data)) - bd = int j0"
    using len j0(2) by simp
  have ok: "int bl \<noteq> 0" "bd \<noteq> 0" "\<not> int (length (take i data)) < bd"
    using assms(3) j0(1,2) len by auto
  show ?thesis
    using ok cp app tr start by (simp add: py_range_def)
qed

lemma compress_from_within_window:
  "int (length data) \<le> window_size \<Longrightarrow> i \<le> length data \<Longrightarrow>
    decode_tokens window_size ([], []) tokens = Inr (take i data, take i data) \<Longrightarrow>
    decode_tokens window_size ([], []) (compress_from data window_size max_length i tokens)
      = Inr (data, data)"
proof (induction data window_size max_length i tokens rule: compress_from.induct)
  case (1 data window_size max_length i tokens)
  show ?case
  proof (cases "i < length data")
    case False
    with "1.prems" show ?thesis by simp
  next
    case True
    obtain bl bd where bm: "best_match data window_size max_length i = (bl, bd)"
      by (cases "best_match data window_size max_length i")
    show ?thesis
    proof (cases "bl > 0")
      case pos: True
      from best_match_source [OF bm pos] have le: "i + bl + 1 \<le> length data" by auto
      have "decode_tokens window_size ([], []) (tokens @ [(bd, int bl, data ! (i + bl))])
              = Inr (take (i + bl + 1) data, take (i + bl + 1) data)"
        using "1.prems"(3) decode_token_match_within_window [OF "1.prems"(1) bm pos]
        by (simp add: decode_tokens_append del: decode_token.simps)
      from "1.IH"(1) [OF True bm [symmetric] pos "1.prems"(1) le this]
      show ?thesis using True bm pos by simp
    next
      case zero: False
      have le: "i + 1 \<le> length data" using True by simp
      have "decode_tokens window_size ([], []) (tokens @ [(0, 0, data ! i)])
              = Inr (take (i + 1) data, take (i + 1) data)"
        using "1.prems"(3) decode_token_literal_within_window [OF "1.prems"(1) True]
        by (simp add: decode_tokens_append del: decode_token.simps)
      from "1.IH"(2) [OF True bm [symmetric] zero "1.prems"(1) le this]
      show ?thesis using True bm zero by simp
    qed
  qed
qed

lemma roundtrip_within_window:
  assumes "int (length data) \<le> window_size" "list_all (\<lambda>b. 0 \<le> b \<and> b \<le> 255) data"
  shows "decompress_stream (compress data window_size max_length) window_size = Inr data"
  using compress_from_within_window [OF assms(1), of 0 "[]" max_length] assms(2)
  by (simp add: compress_def decompress_stream_def py_bytes_def)

section \<open>The decoder on a full window\<close>

text \<open>
  With the script's own configuration (\<open>window_size = 16\<close>, \<open>max_length = 15\<close>):
  sixteen distinct bytes fill the window, the match \<open>0 1 2\<close> at distance \<open>16\<close> is
  decoded as \<open>0 2 4\<close>.
\<close>

lemma roundtrip_mismatch_default_config:
  "decompress_stream (compress [0, 1, 2, 3, 4, 5, 6, 7, 8, 9, 10, 11, 12, 13, 14, 15, 0, 1, 2, 99] 16 15) 16
     = Inr [0, 1, 2, 3, 4, 5, 6, 7, 8, 9, 10, 11, 12, 13, 14, 15, 0, 2, 4, 99]"
  by code_simp

text \<open>
  Claim C1 (round trip), evaluated where it fails. With \<open>window_size = 2\<close> and
  \<open>max_length = 2\<close> the encoder turns the bytes \<open>1 2 1 2 3\<close> into the tokens
  \<open>(0,0,1) (0,0,2) (2,2,3)\<close>, and the decoder turns those into \<open>1 2 1 1 3\<close>: the history
  is full when the match is copied, the first copied byte shifts it, and the second read
  uses the unshifted \<open>start\<close>.
\<close>

theorem roundtrip_full_window_mismatch:
  "compress [1, 2, 1, 2, 3] 2 2 = [(0, 0, 1), (0, 0, 2), (2, 2, 3)]
   \<and> decompress_stream (compress [1, 2, 1, 2, 3] 2 2) 2 = Inr [1, 2, 1, 1, 3]"
  by code_simp

text \<open>
  The decoder's own two errors are raised exactly on a token with \<open>length \<noteq> 0\<close> and
  \<open>distance = 0\<close> or \<open>distance > len(hist)\<close>; any other failure of a token is an
  out-of-range read of the copy loop. A token \<open>(3, 2, 65)\<close> against a history of
  length \<open>2\<close> raises the back-reference error.
\<close>

lemma copy_bytes_error:
  "copy_bytes window_size start ks st = Inl e \<Longrightarrow> e = IndexError"
proof (induction ks arbitrary: st)
  case Nil
  then show ?case by (cases st) simp
next
  case (Cons k ks)
  obtain out_full hist where st: "st = (out_full, hist)" by (cases st)
  show ?case
  proof (cases "py_index hist (start + int k)")
    case (Inl e')
    then show ?thesis using Cons.prems st
      by (auto simp: py_index_def Let_def split: if_splits)
  next
    case (Inr b)
    then show ?thesis using Cons.prems Cons.IH st by simp
  qed
qed

lemma decode_token_raises_iff:
  "(\<exists>e. decode_token window_size (out_full, hist) (distance, len, literal) = Inl e
        \<and> is_invalid_back_reference e)
   \<longleftrightarrow> len \<noteq> 0 \<and> (distance = 0 \<or> int (length hist) < distance)"
proof (cases "len \<noteq> 0 \<and> distance \<noteq> 0 \<and> \<not> int (length hist) < distance")
  case True
  have "e = IndexError"
    if "decode_token window_size (out_full, hist) (distance, len, literal) = Inl e" for e
    using that True copy_bytes_error [of window_size "int (length hist) - distance" "py_range len" "(out_full, hist)" e]
    by (auto split: sum.splits)
  then show ?thesis using True by auto
next
  case False
  then show ?thesis by auto
qed

lemma scenario_distance_exceeds_history:
  "length hist = 2 \<Longrightarrow> decode_token window_size (out_full, hist) (3, 2, 65) = Inl (BackRefTooFar 3 2)"
  by simp

text \<open>
  Claim C4 (the decoder raises InvalidBackReference if and only if ...), evaluated where
  it fails. With \<open>window_size = 1\<close>, after \<open>(0,0,7)\<close> the history is \<open>[7]\<close>; the token
  \<open>(1,2,9)\<close> has \<open>1 \<le> distance \<le> len(hist)\<close>, so no token meets the raising condition,
  and still the decoder does not return: the second read of the copy loop is out of
  range, which is not an InvalidBackReference.
\<close>

theorem decoder_index_error_on_valid_tokens:
  "decode_tokens 1 ([], []) [(0, 0, 7)] = Inr ([7], [7])
   \<and> decompress_stream [(0, 0, 7), (1, 2, 9)] 1 = Inl IndexError
   \<and> \<not> is_invalid_back_reference IndexError"
  by code_simp

text \<open>
  The run of eight equal bytes is encoded without an overlapping match (the encoder
  keeps the source of a match before position \<open>i\<close>) and decodes to itself.
\<close>

lemma run_of_eight_decodes:
  "decompress_stream (compress [65, 65, 65, 65, 65, 65, 65, 65] 4 15) 4 = Inr [65, 65, 65, 65, 65, 65, 65, 65]"
  "decompress_stream (compress [65, 65, 65, 65, 65, 65, 65, 65] 16 15) 16 = Inr [65, 65, 65, 65, 65, 65, 65, 65]"
  "compress [65, 65, 65, 65, 65, 65, 65, 65] 16 15 = [(0, 0, 65), (1, 1, 65), (3, 3, 65), (0, 0, 65)]"
  by code_simp+

text \<open>
  Claim C5 (overlapping copy), evaluated where it fails. With \<open>window_size = 3\<close> and the
  history \<open>[1, 2]\<close> left by two literal tokens, the token \<open>(1, 3, 9)\<close> has \<open>1 \<le> distance \<le> len(hist)\<close> and
  \<open>distance < length\<close>. The run should extend to \<open>2 2 2\<close>; the third read raises,
  because the second append has truncated the history.
\<close>

theorem overlapping_copy_index_error:
  "decode_tokens 3 ([], []) [(0, 0, 1), (0, 0, 2)] = Inr ([1, 2], [1, 2])
   \<and> decode_token 3 ([1, 2], [1, 2]) (1, 3, 9) = Inl IndexError
   \<and> decompress_stream [(0, 0, 1), (0, 0, 2), (1, 3, 9)] 3 = Inl IndexError"
  by code_simp

text \<open>
  Claim C10 (history reads are in bounds), evaluated where it fails. With
  \<open>window_size = 1\<close> the token \<open>(0, 0, 7)\<close> leaves the history \<open>[7]\<close>. The copy loop of
  a token with \<open>distance = 1\<close> and \<open>length = 2\<close> starts at \<open>len(hist) - 1 = 0\<close>; after
  its first iteration the history is \<open>[7]\<close> again (appended, then truncated), and its
  read at \<open>k = 1\<close>, of \<open>hist[1]\<close>, is out of range.
\<close>

theorem copy_loop_read_out_of_bounds:
  "decode_tokens 1 ([], []) [(0, 0, 7)] = Inr ([7], [7])
   \<and> copy_bytes 1 (int (length [7::int]) - 1) (py_range 1) ([7], [7]) = Inr ([7, 7], [7])
   \<and> py_index [7::int] (int (length [7::int]) - 1 + 1) = Inl IndexError
   \<and> copy_bytes 1 (int (length [7::int]) - 1) (py_range 2) ([7], [7]) = Inl IndexError"
  by code_simp

end
